theory Spec2Isabelle
  imports Main "HOL-Library.Multiset"
begin

section \<open>The entity store of clientdb (src/clientdb/entity/store.ts)\<close>

text \<open>
  The store created by \<^verbatim>\<open>createEntityStore\<close> keeps an observable array \<^verbatim>\<open>items\<close> and an
  observable object \<^verbatim>\<open>itemsMap\<close> from identity to entity. Every operation of the store is
  synchronous; \<^verbatim>\<open>runInAction\<close> groups the writes of one operation, so an operation is one
  function from the store's state to its next state. What the operations do to their
  collaborators (the event emitter, the entity's cleanup object, the console, the cleanup
  registry) is recorded in the state as a log, in the order of the calls. What a subscriber
  of the emitter or a disposer does when called is code outside store.ts and is left out.
\<close>

subsection \<open>Values and entities\<close>

text \<open>
  The numbers of the model are the safe integers, those of magnitude at most \<^verbatim>\<open>2^53 - 1\<close>:
  each is a number of the language exactly, and its string form is its decimal numeral.
\<close>

typedef safe_integer = "{i :: int. - (2 ^ 53 - 1) \<le> i \<and> i \<le> 2 ^ 53 - 1}"
  morphisms int_of Abs_safe_integer
  by (rule exI [of _ 0]) simp

text \<open>The values an entity's fields hold.\<close>

datatype jsval = JUndefined | JNull | JBool bool | JNum safe_integer | JStr string

fun digits :: "nat \<Rightarrow> string" where
  "digits n =
     (if n < 10 then [''0123456789'' ! n]
      else digits (n div 10) @ [''0123456789'' ! (n mod 10)])"

declare digits.simps [simp del]

text \<open>The coercion a template literal \<^verbatim>\<open>`${v}`\<close> applies to a value.\<close>

fun toString :: "jsval \<Rightarrow> string" where
  "toString JUndefined = ''undefined''"
| "toString JNull = ''null''"
| "toString (JBool b) = (if b then ''true'' else ''false'')"
| "toString (JNum n) =
     (if int_of n < 0 then ''-'' @ digits (nat (- int_of n)) else digits (nat (int_of n)))"
| "toString (JStr s) = s"

text \<open>
  An entity is an object: \<open>ref\<close> is its identity as an object (two entities are the same
  object exactly when they are equal here), \<open>data\<close> holds its data and view fields.
\<close>

record entity =
  ref :: nat
  data :: "(string \<times> jsval) list"

text \<open>Reading \<^verbatim>\<open>entity[key]\<close>: a field the object does not have reads as undefined.\<close>

definition getField :: "entity \<Rightarrow> string \<Rightarrow> jsval" where
  "getField e k = (case map_of (data e) k of None \<Rightarrow> JUndefined | Some v \<Rightarrow> v)"

type_synonym entity_change_source = string

datatype event =
    ItemAdded entity entity_change_source
  | ItemUpdated entity "(string \<times> jsval) list" entity_change_source
  | ItemWillUpdate entity "(string \<times> jsval) list" entity_change_source
  | ItemRemoved entity entity_change_source

subsection \<open>Configuration and collaborators\<close>

text \<open>
  \<^verbatim>\<open>definition.config\<close>. The access validator is called as
  \<^verbatim>\<open>config.accessValidator(entity, db)\<close> with the one \<^verbatim>\<open>db\<close> handle the store was created
  with; \<open>accessValidator\<close> is that predicate on entities. \<open>findById\<close> can hand the validator
  a value that is no entity, a member the identity map inherits from \<^verbatim>\<open>Object.prototype\<close>
  (see \<open>itemsMapGet\<close> below); \<open>inheritedAccess\<close> is the validator's answer for the member of
  that name, read only when a validator is configured. \<open>'s\<close> is the type of sort inputs.
\<close>

record 's config =
  name :: string
  keyField :: string
  defaultSort :: "'s option"
  accessValidator :: "(entity \<Rightarrow> bool) option"
  inheritedAccess :: "string \<Rightarrow> bool"

text \<open>
  A query view as \<^verbatim>\<open>createEntityQuery\<close> returns it: \<open>qid\<close> is the identity of the object,
  \<open>qfilter\<close> and \<open>qsort\<close> are the configuration it was created with (the sort already
  resolved to a comparator).
\<close>

record 'f query_view =
  qid :: nat
  qfilter :: "'f option"
  qsort :: "(entity \<Rightarrow> entity \<Rightarrow> int) option"

text \<open>
  The state of one store. \<open>'f\<close> is the type of filter inputs (\<^verbatim>\<open>FindInput\<close>), \<open>'s\<close> the type
  of sort inputs (\<^verbatim>\<open>EntityQuerySortInput\<close>); equality on them is the structural equality
  \<^verbatim>\<open>deepMemoize\<close> compares arguments with.
  \<^item> \<open>items\<close>, \<open>itemsMap\<close>: the two observable containers;
  \<^item> \<open>events\<close>: the events emitted so far;
  \<^item> \<open>cleaned\<close>: the entities whose \<^verbatim>\<open>cleanup.clean()\<close> has been called, in call order;
  \<^item> \<open>warnings\<close>: the lines written with \<^verbatim>\<open>console.warn\<close>;
  \<^item> \<open>queryIndexes\<close>: the keys of the \<^verbatim>\<open>queryIndexes\<close> map, in insertion order;
  \<^item> \<open>queryCache\<close>: the results \<^verbatim>\<open>createOrReuseQuery\<close> has memoized;
  \<^item> \<open>cleanupsCleaned\<close>, \<open>destroyedIndexes\<close>, \<open>eventsDestroyed\<close>: what \<^verbatim>\<open>destroy\<close> has
    called.
\<close>

record ('f, 's) store_state =
  items :: "entity list"
  itemsMap :: "string \<rightharpoonup> entity"
  events :: "event list"
  cleaned :: "entity list"
  warnings :: "string list"
  queryIndexes :: "string list"
  queryCache :: "(('f option \<times> 's option) \<times> 'f query_view) list"
  cleanupsCleaned :: nat
  destroyedIndexes :: "string list"
  eventsDestroyed :: bool

text \<open>
  What store.ts imports from \<^verbatim>\<open>./queryIndex\<close>, \<^verbatim>\<open>./find\<close> and \<^verbatim>\<open>./query\<close> and only
  calls. These functions are parameters of the model:
  \<^item> \<open>indexFind key s v\<close> is \<^verbatim>\<open>createQueryFieldIndex(key, store).find(v)\<close> on the store in
    state \<open>s\<close>;
  \<^item> \<open>filterHolds f e\<close> says whether the filter input \<open>f\<close> lets the entity \<open>e\<close> pass;
  \<^item> \<open>resolveSortInput\<close> turns a sort input into a comparator.
\<close>

record ('f, 's) env =
  indexFind :: "string \<Rightarrow> ('f, 's) store_state \<Rightarrow> jsval \<Rightarrow> entity list"
  filterHolds :: "'f \<Rightarrow> entity \<Rightarrow> bool"
  resolveSortInput :: "'s \<Rightarrow> entity \<Rightarrow> entity \<Rightarrow> int"

definition createEntityStore :: "('f, 's) store_state" where
  "createEntityStore =
     \<lparr>items = [], itemsMap = Map.empty, events = [], cleaned = [], warnings = [],
      queryIndexes = [], queryCache = [], cleanupsCleaned = 0, destroyedIndexes = [],
      eventsDestroyed = False\<rparr>"

subsection \<open>Identity, access, lookup by identity\<close>

definition getEntityId :: "'s config \<Rightarrow> entity \<Rightarrow> string" where
  "getEntityId cfg e = toString (getField e (keyField cfg))"

text \<open>
  \<^verbatim>\<open>getIsEntityAccessable && !getIsEntityAccessable(entity)\<close>: the test that makes a lookup
  answer null. \<^verbatim>\<open>cachedComputed\<close> caches a derivation and recomputes it when what it read
  has changed, so a cached function is modelled by the function it wraps.
\<close>

definition rejected :: "'s config \<Rightarrow> entity \<Rightarrow> bool" where
  "rejected cfg e = (case accessValidator cfg of None \<Rightarrow> False | Some av \<Rightarrow> \<not> av e)"

definition getRootSource :: "'s config \<Rightarrow> ('f, 's) store_state \<Rightarrow> entity list" where
  "getRootSource cfg s =
     (case accessValidator cfg of None \<Rightarrow> items s | Some av \<Rightarrow> filter av (items s))"

text \<open>
  \<^verbatim>\<open>itemsMap\<close> is made by \<^verbatim>\<open>observable.object({})\<close>, an object with the prototype
  \<^verbatim>\<open>Object.prototype\<close>. The field \<open>itemsMap\<close> of the state holds its own keys. Reading
  \<^verbatim>\<open>itemsMap[id]\<close> answers the entity under the own key \<open>id\<close> when there is one, the member
  of \<^verbatim>\<open>Object.prototype\<close> of that name when there is one, and undefined otherwise. Every
  such member is a function or an object, hence neither null nor undefined nor falsy, and
  none has a property \<^verbatim>\<open>cleanup\<close>.
\<close>

datatype item = Entity entity | Inherited string

definition objectPrototypeMembers :: "string list" where
  "objectPrototypeMembers =
     [''constructor'', ''hasOwnProperty'', ''isPrototypeOf'', ''propertyIsEnumerable'',
      ''toLocaleString'', ''toString'', ''valueOf'', ''__proto__'',
      ''__defineGetter__'', ''__defineSetter__'', ''__lookupGetter__'', ''__lookupSetter__'']"

definition itemsMapGet :: "('f, 's) store_state \<Rightarrow> string \<Rightarrow> item option" where
  "itemsMapGet s i =
     (case itemsMap s i of
        Some e \<Rightarrow> Some (Entity e)
      | None \<Rightarrow> if i \<in> set objectPrototypeMembers then Some (Inherited i) else None)"

text \<open>The same test on whatever \<^verbatim>\<open>itemsMap[id]\<close> answered.\<close>

fun rejectedItem :: "'s config \<Rightarrow> item \<Rightarrow> bool" where
  "rejectedItem cfg (Entity e) = rejected cfg e"
| "rejectedItem cfg (Inherited m) =
     (case accessValidator cfg of None \<Rightarrow> False | Some av \<Rightarrow> \<not> inheritedAccess cfg m)"

definition findById :: "'s config \<Rightarrow> ('f, 's) store_state \<Rightarrow> string \<Rightarrow> item option" where
  "findById cfg s i =
     (case itemsMapGet s i of
        None \<Rightarrow> None
      | Some entity \<Rightarrow> if rejectedItem cfg entity then None else Some entity)"

subsection \<open>add and removeById\<close>

text \<open>A parameter with the default \<^verbatim>\<open>source = "user"\<close>.\<close>

definition sourceOr :: "entity_change_source option \<Rightarrow> entity_change_source" where
  "sourceOr src = (case src of None \<Rightarrow> ''user'' | Some x \<Rightarrow> x)"

definition add ::
  "'s config \<Rightarrow> entity \<Rightarrow> entity_change_source option \<Rightarrow> ('f, 's) store_state
     \<Rightarrow> entity \<times> ('f, 's) store_state" where
  "add cfg e src s =
     (let i = getEntityId cfg e in
      (e, s\<lparr>items := items s @ [e],
            itemsMap := (itemsMap s)(i \<mapsto> e),
            events := events s @ [ItemAdded e (sourceOr src)]\<rparr>))"

text \<open>
  What an operation of the store can raise: the failure of an assertion, and the
  \<^verbatim>\<open>TypeError\<close> of reading a property of undefined.
\<close>

datatype message_or_error = Message string | ErrorObject string

datatype error = NotFound message_or_error | TypeError

text \<open>
  \<^verbatim>\<open>items.remove(entity)\<close> of an observable array deletes the first occurrence of the value
  and answers whether there was one. When \<^verbatim>\<open>itemsMap[id]\<close> answers an inherited member, the
  test \<^verbatim>\<open>entity === null\<close> lets it through and \<^verbatim>\<open>entity.cleanup.clean()\<close>, the first
  statement of the action, reads \<^verbatim>\<open>clean\<close> of undefined: the call raises and the store is
  as it was.
\<close>

definition removeById ::
  "string \<Rightarrow> entity_change_source option \<Rightarrow> ('f, 's) store_state
     \<Rightarrow> (error + bool) \<times> ('f, 's) store_state" where
  "removeById i src s =
     (case itemsMapGet s i of
        None \<Rightarrow> (Inr False, s)
      | Some (Inherited m) \<Rightarrow> (Inl TypeError, s)
      | Some (Entity e) \<Rightarrow>
          (Inr (e \<in> set (items s)),
           s\<lparr>cleaned := cleaned s @ [e],
             items := remove1 e (items s),
             itemsMap := (itemsMap s)(i := None),
             events := events s @ [ItemRemoved e (sourceOr src)]\<rparr>))"

subsection \<open>Field indexes and lookup by unique index\<close>

text \<open>
  \<^verbatim>\<open>getKeyIndex\<close> creates the index of a key on first use and keeps it in \<^verbatim>\<open>queryIndexes\<close>.
  The index object of a key is determined by the key; what it answers is \<open>indexFind\<close>.
\<close>

definition getKeyIndex :: "string \<Rightarrow> ('f, 's) store_state \<Rightarrow> ('f, 's) store_state" where
  "getKeyIndex key s =
     (if key \<in> set (queryIndexes s) then s
      else s\<lparr>queryIndexes := queryIndexes s @ [key]\<rparr>)"

definition multipleItemsWarning :: "string \<Rightarrow> jsval \<Rightarrow> string" where
  "multipleItemsWarning key v =
     ''Store has multiple items for unique index value '' @ key @ '':'' @ toString v @ ''.''"

definition findByUniqueIndex ::
  "('f, 's) env \<Rightarrow> 's config \<Rightarrow> string \<Rightarrow> jsval \<Rightarrow> ('f, 's) store_state
     \<Rightarrow> entity option \<times> ('f, 's) store_state" where
  "findByUniqueIndex env cfg key v s =
     (let s1 = getKeyIndex key s;
          results = indexFind env key s1 v
      in case results of
           [] \<Rightarrow> (None, s1)
         | result # others \<Rightarrow>
             (let s2 = (if length results > 1
                        then s1\<lparr>warnings := warnings s1 @ [multipleItemsWarning key v]\<rparr>
                        else s1)
              in if rejected cfg result then (None, s2) else (Some result, s2)))"

subsection \<open>The asserting lookups\<close>

text \<open>
  Modelled from the spec: \<^verbatim>\<open>assert\<close> is defined in \<^verbatim>\<open>../utils/assert\<close>, outside store.ts.
  The spec has the asserting operations fail with a NotFound condition that carries the
  message when the looked-up value is null, and return the value otherwise.
\<close>

definition assert :: "'a option \<Rightarrow> message_or_error \<Rightarrow> error + 'a" where
  "assert input messageOrError =
     (case input of None \<Rightarrow> Inl (NotFound messageOrError) | Some x \<Rightarrow> Inr x)"

definition assertFindById ::
  "'s config \<Rightarrow> ('f, 's) store_state \<Rightarrow> string \<Rightarrow> message_or_error option
     \<Rightarrow> error + item" where
  "assertFindById cfg s i err =
     (let item = findById cfg s i
      in assert item
           (case err of None \<Rightarrow> Message (''No item found for id '' @ i) | Some m \<Rightarrow> m))"

definition assertFindByUniqueIndex ::
  "('f, 's) env \<Rightarrow> 's config \<Rightarrow> string \<Rightarrow> jsval \<Rightarrow> ('f, 's) store_state
     \<Rightarrow> (error + entity) \<times> ('f, 's) store_state" where
  "assertFindByUniqueIndex env cfg key v s =
     (let (entity, s') = findByUniqueIndex env cfg key v s
      in (assert entity
            (Message (''Assertion error for assertFindByUniqueIndex for key '' @ key
                        @ '' and value '' @ toString v)),
          s'))"

subsection \<open>Queries\<close>

text \<open>
  Modelled from the spec: \<^verbatim>\<open>deepMemoize\<close> is defined in \<^verbatim>\<open>./utils/deepMap\<close>, outside
  store.ts. The spec has query construction memoized per store, keyed by the
  structural identity of (filter, sort), with entries that live as long as the store:
  a call with arguments equal to those of an earlier call answers the object made then,
  any other call runs the wrapped function and remembers its result. The wrapped
  function is the source's: it resolves the sort input and calls \<^verbatim>\<open>createEntityQuery\<close>,
  which makes a new object (here: one with an unused \<open>qid\<close>).
\<close>

definition createOrReuseQuery ::
  "('f, 's) env \<Rightarrow> 'f option \<Rightarrow> 's option \<Rightarrow> ('f, 's) store_state
     \<Rightarrow> 'f query_view \<times> ('f, 's) store_state" where
  "createOrReuseQuery env flt srt s =
     (case map_of (queryCache s) (flt, srt) of
        Some q \<Rightarrow> (q, s)
      | None \<Rightarrow>
          (let resolvedSort = map_option (resolveSortInput env) srt;
               q = \<lparr>qid = length (queryCache s), qfilter = flt, qsort = resolvedSort\<rparr>
           in (q, s\<lparr>queryCache := queryCache s @ [((flt, srt), q)]\<rparr>)))"

definition query ::
  "('f, 's) env \<Rightarrow> 'f \<Rightarrow> 's option \<Rightarrow> ('f, 's) store_state
     \<Rightarrow> 'f query_view \<times> ('f, 's) store_state" where
  "query env flt srt s = createOrReuseQuery env (Some flt) srt s"

definition sort_store ::
  "('f, 's) env \<Rightarrow> 's \<Rightarrow> ('f, 's) store_state \<Rightarrow> 'f query_view \<times> ('f, 's) store_state" where
  "sort_store env srt s = createOrReuseQuery env None (Some srt) s"

text \<open>Sorting with a comparator: a stable insertion sort.\<close>

fun insertWith :: "('a \<Rightarrow> 'a \<Rightarrow> int) \<Rightarrow> 'a \<Rightarrow> 'a list \<Rightarrow> 'a list" where
  "insertWith c x [] = [x]"
| "insertWith c x (y # ys) = (if c x y \<le> 0 then x # y # ys else y # insertWith c x ys)"

fun sortWith :: "('a \<Rightarrow> 'a \<Rightarrow> int) \<Rightarrow> 'a list \<Rightarrow> 'a list" where
  "sortWith c [] = []"
| "sortWith c (x # xs) = insertWith c x (sortWith c xs)"

text \<open>
  Modelled from the spec: \<^verbatim>\<open>createEntityQuery\<close> is defined in \<^verbatim>\<open>./query\<close>, outside
  store.ts. By the spec, \<^verbatim>\<open>all\<close> and \<^verbatim>\<open>first\<close> of a query view take the store's
  access-filtered root collection, keep the entities the filter holds for, and apply the
  sort, the configured default sort when the query has none. They are computed on read,
  from the root collection of the moment.
\<close>

definition queryAll ::
  "('f, 's) env \<Rightarrow> 's config \<Rightarrow> 'f query_view \<Rightarrow> entity list \<Rightarrow> entity list" where
  "queryAll env cfg q source =
     (let passing = (case qfilter q of None \<Rightarrow> source
                     | Some f \<Rightarrow> filter (filterHolds env f) source);
          sorter = (case qsort q of Some c \<Rightarrow> Some c
                    | None \<Rightarrow> map_option (resolveSortInput env) (defaultSort cfg))
      in case sorter of None \<Rightarrow> passing | Some c \<Rightarrow> sortWith c passing)"

definition queryFirst ::
  "('f, 's) env \<Rightarrow> 's config \<Rightarrow> 'f query_view \<Rightarrow> entity list \<Rightarrow> entity option" where
  "queryFirst env cfg q source =
     (case queryAll env cfg q source of [] \<Rightarrow> None | e # _ \<Rightarrow> Some e)"

text \<open>\<^verbatim>\<open>store.query(filter).all\<close> and \<^verbatim>\<open>store.query(filter).first\<close>.\<close>

definition find_store ::
  "('f, 's) env \<Rightarrow> 's config \<Rightarrow> 'f \<Rightarrow> ('f, 's) store_state
     \<Rightarrow> entity list \<times> ('f, 's) store_state" where
  "find_store env cfg flt s =
     (let (q, s') = query env flt None s
      in (queryAll env cfg q (getRootSource cfg s'), s'))"

definition findFirst ::
  "('f, 's) env \<Rightarrow> 's config \<Rightarrow> 'f \<Rightarrow> ('f, 's) store_state
     \<Rightarrow> entity option \<times> ('f, 's) store_state" where
  "findFirst env cfg flt s =
     (let (q, s') = query env flt None s
      in (queryFirst env cfg q (getRootSource cfg s'), s'))"

subsection \<open>destroy\<close>

text \<open>
  \<^verbatim>\<open>cleanups\<close> is a cleanup object local to \<^verbatim>\<open>createEntityStore\<close>. store.ts registers
  nothing on it and does not hand it out, so \<^verbatim>\<open>cleanups.clean()\<close> is recorded as a call
  and changes nothing else. Each index of \<^verbatim>\<open>queryIndexes\<close> and the event emitter are
  destroyed.
\<close>

definition destroy :: "('f, 's) store_state \<Rightarrow> ('f, 's) store_state" where
  "destroy s =
     s\<lparr>cleanupsCleaned := Suc (cleanupsCleaned s),
       destroyedIndexes := destroyedIndexes s @ queryIndexes s,
       eventsDestroyed := True\<rparr>"

subsection \<open>Sequences of operations\<close>

text \<open>The calls a client makes on a live store, and the state they lead to.\<close>

datatype ('f, 's) op =
    Add entity "entity_change_source option"
  | RemoveById string "entity_change_source option"
  | Query 'f "'s option"
  | Sort 's
  | GetKeyIndex string
  | FindByUniqueIndex string jsval

fun step ::
  "('f, 's) env \<Rightarrow> 's config \<Rightarrow> ('f, 's) op \<Rightarrow> ('f, 's) store_state \<Rightarrow> ('f, 's) store_state" where
  "step env cfg (Add e src) s = snd (add cfg e src s)"
| "step env cfg (RemoveById i src) s = snd (removeById i src s)"
| "step env cfg (Query flt srt) s = snd (query env flt srt s)"
| "step env cfg (Sort srt) s = snd (sort_store env srt s)"
| "step env cfg (GetKeyIndex key) s = getKeyIndex key s"
| "step env cfg (FindByUniqueIndex key v) s = snd (findByUniqueIndex env cfg key v s)"

fun run ::
  "('f, 's) env \<Rightarrow> 's config \<Rightarrow> ('f, 's) op list \<Rightarrow> ('f, 's) store_state
     \<Rightarrow> ('f, 's) store_state" where
  "run env cfg [] s = s"
| "run env cfg (x # xs) s = run env cfg xs (step env cfg x s)"

subsection \<open>Predicates on states and on sequences of operations\<close>

text \<open>
  Every entity of the identity map is in the array, under its own identity.
\<close>

definition mapped_in_items :: "'s config \<Rightarrow> ('f, 's) store_state \<Rightarrow> bool" where
  "mapped_in_items cfg s =
     (\<forall>i e. itemsMap s i = Some e \<longrightarrow> e \<in> set (items s) \<and> getEntityId cfg e = i)"

text \<open>
  An operation that leaves the entity \<open>e\<close> registered: it is not \<^verbatim>\<open>removeById\<close> of the
  identity of \<open>e\<close>, and it is not \<^verbatim>\<open>add\<close> of another entity with that identity.
\<close>

fun keepsEntity :: "'s config \<Rightarrow> entity \<Rightarrow> ('f, 's) op \<Rightarrow> bool" where
  "keepsEntity cfg e (Add e' src) = (getEntityId cfg e' \<noteq> getEntityId cfg e \<or> e' = e)"
| "keepsEntity cfg e (RemoveById i src) = (i \<noteq> getEntityId cfg e)"
| "keepsEntity cfg e (Query flt srt) = True"
| "keepsEntity cfg e (Sort srt) = True"
| "keepsEntity cfg e (GetKeyIndex key) = True"
| "keepsEntity cfg e (FindByUniqueIndex key v) = True"

text \<open>
  A sequence of operations, run from state \<open>s\<close>, in which every \<^verbatim>\<open>add\<close> brings an identity
  that the identity map does not hold at that moment.
\<close>

fun freshAdds ::
  "('f, 's) env \<Rightarrow> 's config \<Rightarrow> ('f, 's) op list \<Rightarrow> ('f, 's) store_state \<Rightarrow> bool" where
  "freshAdds env cfg [] s = True"
| "freshAdds env cfg (x # xs) s =
     ((case x of Add e src \<Rightarrow> itemsMap s (getEntityId cfg e) = None | _ \<Rightarrow> True)
      \<and> freshAdds env cfg xs (step env cfg x s))"

text \<open>
  The two containers agree: the identities of the array are pairwise different, every
  entity of the array is the one the identity map holds for its identity, and every entity
  of the identity map is in the array.
\<close>

definition consistent :: "'s config \<Rightarrow> ('f, 's) store_state \<Rightarrow> bool" where
  "consistent cfg s =
     (distinct (map (getEntityId cfg) (items s))
      \<and> (\<forall>e \<in> set (items s). itemsMap s (getEntityId cfg e) = Some e)
      \<and> mapped_in_items cfg s)"

text \<open>
  The memo of \<^verbatim>\<open>createOrReuseQuery\<close> is well formed: every remembered view was made from the
  arguments it is remembered under, and the views are numbered in the order they were made.
\<close>

definition cache_ok :: "('f, 's) env \<Rightarrow> ('f, 's) store_state \<Rightarrow> bool" where
  "cache_ok env s =
     (list_all (\<lambda>((f, so), q). qfilter q = f \<and> qsort q = map_option (resolveSortInput env) so)
        (queryCache s)
      \<and> map (qid \<circ> snd) (queryCache s) = [0..<length (queryCache s)])"

subsection \<open>Sample data\<close>

text \<open>
  A store keyed by the field \<open>id\<close>, with the three entities of the spec's scenario and a
  fourth that shares the identity of the first. In the sample environment a filter input
  is a pair of a field and the value it must have, a sort input orders by object age,
  ascending or descending, and an index answers the entities of the array whose field
  has the value.
\<close>

definition sampleConfig :: "bool config" where
  "sampleConfig =
     \<lparr>name = ''item'', keyField = ''id'', defaultSort = None, accessValidator = None,
      inheritedAccess = (\<lambda>m. True)\<rparr>"

definition sampleEnv :: "(string \<times> jsval, bool) env" where
  "sampleEnv =
     \<lparr>indexFind = (\<lambda>key s v. filter (\<lambda>e. getField e key = v) (items s)),
      filterHolds = (\<lambda>(k, v) e. getField e k = v),
      resolveSortInput =
        (\<lambda>asc a b. if asc then int (ref a) - int (ref b) else int (ref b) - int (ref a))\<rparr>"

definition entA :: entity where
  "entA = \<lparr>ref = 1, data = [(''id'', JStr ''a''), (''group'', JStr ''x'')]\<rparr>"

definition entB :: entity where
  "entB = \<lparr>ref = 2, data = [(''id'', JStr ''b''), (''group'', JStr ''x'')]\<rparr>"

definition entC :: entity where
  "entC = \<lparr>ref = 3, data = [(''id'', JStr ''c''), (''group'', JStr ''y'')]\<rparr>"

definition entA' :: entity where
  "entA' = \<lparr>ref = 4, data = [(''id'', JStr ''a''), (''group'', JStr ''y'')]\<rparr>"

text \<open>A validator that lets through the entities of group \<open>x\<close> only.\<close>

definition groupX :: "entity \<Rightarrow> bool" where
  "groupX e = (getField e ''group'' = JStr ''x'')"

definition guardedConfig :: "bool config" where
  "guardedConfig = sampleConfig\<lparr>accessValidator := Some groupX\<rparr>"

section \<open>Properties\<close>

subsection \<open>Facts about the sample data\<close>

lemma sample_ids [simp]:
  "getEntityId sampleConfig entA = ''a''" "getEntityId sampleConfig entA' = ''a''"
  "getEntityId sampleConfig entB = ''b''" "getEntityId sampleConfig entC = ''c''"
  "getEntityId guardedConfig entA = ''a''" "getEntityId guardedConfig entA' = ''a''"
  "getEntityId guardedConfig entB = ''b''" "getEntityId guardedConfig entC = ''c''"
  by (simp_all add: getEntityId_def getField_def sampleConfig_def guardedConfig_def
        entA_def entA'_def entB_def entC_def)

lemma sample_distinct [simp]:
  "entA \<noteq> entA'" "entA \<noteq> entB" "entA \<noteq> entC" "entB \<noteq> entC" "entA' \<noteq> entB"
  "entA' \<noteq> entC" "entA' \<noteq> entA" "entB \<noteq> entA" "entC \<noteq> entA" "entC \<noteq> entB"
  "entB \<noteq> entA'" "entC \<noteq> entA'"
  by (simp_all add: entA_def entA'_def entB_def entC_def)

lemma sample_groups [simp]:
  "groupX entA" "groupX entB" "\<not> groupX entC" "\<not> groupX entA'"
  by (simp_all add: groupX_def getField_def entA_def entA'_def entB_def entC_def)

lemma sample_rejected [simp]:
  "rejected sampleConfig e = False" "rejected guardedConfig e = (\<not> groupX e)"
  by (simp_all add: rejected_def sampleConfig_def guardedConfig_def)

lemma sample_not_inherited [simp]:
  "''a'' \<notin> set objectPrototypeMembers" "''b'' \<notin> set objectPrototypeMembers"
  "''c'' \<notin> set objectPrototypeMembers" "''missing'' \<notin> set objectPrototypeMembers"
  by (simp_all add: objectPrototypeMembers_def)

lemma sample_validator [simp]:
  "accessValidator sampleConfig = None" "accessValidator guardedConfig = Some groupX"
  by (simp_all add: sampleConfig_def guardedConfig_def)

lemma sample_rejectedItem [simp]: "rejectedItem sampleConfig x = False"
  by (cases x) simp_all

subsection \<open>String coercion of numbers\<close>

lemma toString_number_example:
  "toString (JNum (Abs_safe_integer 42)) = ''42''"
  "toString (JNum (Abs_safe_integer (- 7))) = ''-7''"
  by (simp_all add: Abs_safe_integer_inverse digits.simps)

subsection \<open>Operations that leave the two containers alone\<close>

lemma getKeyIndex_items [simp]: "items (getKeyIndex k s) = items s"
  and getKeyIndex_itemsMap [simp]: "itemsMap (getKeyIndex k s) = itemsMap s"
  by (simp_all add: getKeyIndex_def)

lemma createOrReuseQuery_items [simp]:
  "items (snd (createOrReuseQuery env f so s)) = items s"
  and createOrReuseQuery_itemsMap [simp]:
  "itemsMap (snd (createOrReuseQuery env f so s)) = itemsMap s"
  by (simp_all add: createOrReuseQuery_def Let_def split: option.splits)

lemma findByUniqueIndex_items [simp]:
  "items (snd (findByUniqueIndex env cfg k v s)) = items s"
  and findByUniqueIndex_itemsMap [simp]:
  "itemsMap (snd (findByUniqueIndex env cfg k v s)) = itemsMap s"
  by (simp_all add: findByUniqueIndex_def Let_def split: list.splits)

lemma removeById_absent: "itemsMap s i = None \<Longrightarrow> snd (removeById i src s) = s"
  by (simp add: removeById_def itemsMapGet_def)

lemma removeById_present:
  "itemsMap s i = Some e \<Longrightarrow>
   removeById i src s =
     (Inr (e \<in> set (items s)),
      s\<lparr>cleaned := cleaned s @ [e],
        items := remove1 e (items s),
        itemsMap := (itemsMap s)(i := None),
        events := events s @ [ItemRemoved e (sourceOr src)]\<rparr>)"
  by (simp add: removeById_def itemsMapGet_def)

subsection \<open>The identity map points into the array\<close>

lemma mapped_in_items_step:
  "mapped_in_items cfg s \<Longrightarrow> mapped_in_items cfg (step env cfg x s)"
proof (cases x)
  case (Add e src)
  assume "mapped_in_items cfg s"
  then show ?thesis using Add
    by (auto simp: mapped_in_items_def add_def Let_def)
next
  case (RemoveById i src)
  assume inv: "mapped_in_items cfg s"
  show ?thesis
  proof (cases "itemsMap s i")
    case None
    then show ?thesis using inv RemoveById by (simp add: removeById_absent)
  next
    case (Some e)
    have "e' \<in> set (remove1 e (items s)) \<and> getEntityId cfg e' = j"
      if "j \<noteq> i" "itemsMap s j = Some e'" for j e'
    proof -
      from inv that have e': "e' \<in> set (items s)" "getEntityId cfg e' = j"
        by (auto simp: mapped_in_items_def)
      from inv Some have "getEntityId cfg e = i" by (auto simp: mapped_in_items_def)
      with e' that have "e' \<noteq> e" by auto
      with e' show ?thesis by simp
    qed
    then show ?thesis using Some RemoveById
      by (auto simp: mapped_in_items_def removeById_present)
  qed
qed (simp_all add: mapped_in_items_def query_def sort_store_def)

lemma mapped_in_items_run:
  "mapped_in_items cfg s \<Longrightarrow> mapped_in_items cfg (run env cfg xs s)"
  by (induction xs arbitrary: s) (simp_all add: mapped_in_items_step)

lemma mapped_in_items_reachable: "mapped_in_items cfg (run env cfg xs createEntityStore)"
  by (rule mapped_in_items_run) (simp add: mapped_in_items_def createEntityStore_def)

subsection \<open>The array and the identity map\<close>

lemma consistent_add:
  assumes "consistent cfg s" and fresh: "itemsMap s (getEntityId cfg e) = None"
  shows "consistent cfg (snd (add cfg e src s))"
proof -
  from assms have new: "getEntityId cfg e \<notin> getEntityId cfg ` set (items s)"
    by (auto simp: consistent_def)
  have 1: "distinct (map (getEntityId cfg) (items s @ [e]))"
    using assms(1) new by (simp add: consistent_def)
  have 2: "((itemsMap s)(getEntityId cfg e \<mapsto> e)) (getEntityId cfg e') = Some e'"
    if "e' \<in> set (items s @ [e])" for e'
  proof (cases "e' = e")
    case True
    then show ?thesis by simp
  next
    case False
    with that have in_s: "e' \<in> set (items s)" by simp
    with new have "getEntityId cfg e' \<noteq> getEntityId cfg e" by (metis image_eqI)
    with in_s assms(1) show ?thesis by (simp add: consistent_def)
  qed
  have 3: "mapped_in_items cfg (snd (add cfg e src s))"
    using mapped_in_items_step [of cfg s _ "Add e src"] assms(1)
    by (simp add: consistent_def)
  from 1 2 3 show ?thesis
    by (simp add: consistent_def add_def Let_def)
qed

lemma consistent_removeById:
  assumes "consistent cfg s"
  shows "consistent cfg (snd (removeById i src s))"
proof (cases "itemsMap s i")
  case None
  with assms show ?thesis by (simp add: removeById_absent)
next
  case (Some e)
  from assms have m: "mapped_in_items cfg s" by (simp add: consistent_def)
  with Some have e: "e \<in> set (items s)" "getEntityId cfg e = i"
    by (auto simp: mapped_in_items_def)
  from assms have d: "distinct (map (getEntityId cfg) (items s))"
    by (simp add: consistent_def)
  then have di: "distinct (items s)" and inj: "inj_on (getEntityId cfg) (set (items s))"
    by (simp_all add: distinct_map)
  have 1: "distinct (map (getEntityId cfg) (remove1 e (items s)))"
    using di inj by (simp add: distinct_map inj_on_def)
  have 2: "((itemsMap s)(i := None)) (getEntityId cfg e') = Some e'"
    if "e' \<in> set (remove1 e (items s))" for e'
  proof -
    from that di have e': "e' \<in> set (items s)" "e' \<noteq> e" by auto
    with inj e have "getEntityId cfg e' \<noteq> i" by (auto dest: inj_onD)
    with e' assms show ?thesis by (simp add: consistent_def)
  qed
  have 3: "mapped_in_items cfg (snd (removeById i src s))"
    using mapped_in_items_step [of cfg s _ "RemoveById i src"] m by simp
  from 1 2 have "consistent cfg (snd (removeById i src s)) = mapped_in_items cfg (snd (removeById i src s))"
    using Some by (simp add: consistent_def removeById_present)
  with 3 show ?thesis by simp
qed

lemma consistent_other:
  assumes "consistent cfg s" and "items s' = items s" and "itemsMap s' = itemsMap s"
  shows "consistent cfg s'"
  using assms by (simp add: consistent_def mapped_in_items_def)

lemma consistent_step:
  assumes "consistent cfg s"
    and "case x of Add e src \<Rightarrow> itemsMap s (getEntityId cfg e) = None | _ \<Rightarrow> True"
  shows "consistent cfg (step env cfg x s)"
proof (cases x)
  case (Add e src)
  with assms show ?thesis by (simp add: consistent_add)
next
  case (RemoveById i src)
  with assms show ?thesis by (simp add: consistent_removeById)
qed (use assms(1) in \<open>simp_all add: consistent_other query_def sort_store_def\<close>)

lemma consistent_run:
  "consistent cfg s \<Longrightarrow> freshAdds env cfg xs s \<Longrightarrow> consistent cfg (run env cfg xs s)"
  by (induction xs arbitrary: s) (simp_all add: consistent_step)

text \<open>
  C7, as the code has it. After every sequence of operations on a new store in which each
  \<^verbatim>\<open>add\<close> brings an identity the identity map does not hold at that moment, the set of
  identities of the entities in the ordered sequence equals the key set of the identity
  map, and no two entries of the ordered sequence carry the same identity.
\<close>

theorem fresh_adds_keep_containers_equal:
  assumes "freshAdds env cfg ops createEntityStore"
    and "s = run env cfg ops createEntityStore"
  shows "getEntityId cfg ` set (items s) = dom (itemsMap s)
         \<and> distinct (map (getEntityId cfg) (items s))"
proof -
  have "consistent cfg (createEntityStore :: ('a, 'b) store_state)"
    by (simp add: consistent_def createEntityStore_def mapped_in_items_def)
  with assms have c: "consistent cfg s" by (simp add: consistent_run)
  have "getEntityId cfg ` set (items s) \<subseteq> dom (itemsMap s)"
    using c by (auto simp: consistent_def)
  moreover have "dom (itemsMap s) \<subseteq> getEntityId cfg ` set (items s)"
    using c by (force simp: consistent_def mapped_in_items_def)
  ultimately show ?thesis using c by (simp add: consistent_def)
qed

theorem fresh_adds_keep_containers_equal_witness:
  "freshAdds sampleEnv sampleConfig
     [Add entA None, Add entB None, RemoveById ''a'' None, Add entA' None] createEntityStore
   \<and> getEntityId sampleConfig ` set (items (run sampleEnv sampleConfig
         [Add entA None, Add entB None, RemoveById ''a'' None, Add entA' None] createEntityStore))
       = dom (itemsMap (run sampleEnv sampleConfig
         [Add entA None, Add entB None, RemoveById ''a'' None, Add entA' None] createEntityStore))
   \<and> distinct (map (getEntityId sampleConfig) (items (run sampleEnv sampleConfig
         [Add entA None, Add entB None, RemoveById ''a'' None, Add entA' None] createEntityStore)))"
proof -
  have f: "freshAdds sampleEnv sampleConfig
     [Add entA None, Add entB None, RemoveById ''a'' None, Add entA' None] createEntityStore"
    by (simp add: add_def removeById_present createEntityStore_def)
  from f fresh_adds_keep_containers_equal [OF f refl] show ?thesis by blast
qed

text \<open>
  C7 as stated fails after two calls of \<^verbatim>\<open>add\<close> with one identity: the ordered sequence
  holds both entities, and once \<^verbatim>\<open>removeById\<close> has deleted the map's entry the sequence
  still holds an entity with that identity.
\<close>

theorem duplicate_add_counterexample:
  "\<not> distinct (map (getEntityId sampleConfig)
        (items (run sampleEnv sampleConfig [Add entA None, Add entA' None] createEntityStore)))
   \<and> getEntityId sampleConfig ` set (items (run sampleEnv sampleConfig
         [Add entA None, Add entA' None, RemoveById ''a'' None] createEntityStore))
       \<noteq> dom (itemsMap (run sampleEnv sampleConfig
         [Add entA None, Add entA' None, RemoveById ''a'' None] createEntityStore))"
  by (simp add: add_def removeById_present createEntityStore_def)

subsection \<open>removeById\<close>

lemma consistent_reachable:
  "freshAdds env cfg ops createEntityStore \<Longrightarrow>
   consistent cfg (run env cfg ops createEntityStore)"
  by (rule consistent_run)
     (simp_all add: consistent_def createEntityStore_def mapped_in_items_def)

lemma consistent_remove1:
  assumes "consistent cfg s" and "e \<in> set (items s)"
  shows "\<forall>e' \<in> set (remove1 e (items s)). getEntityId cfg e' \<noteq> getEntityId cfg e"
proof
  fix e' assume e': "e' \<in> set (remove1 e (items s))"
  from assms(1) have d: "distinct (map (getEntityId cfg) (items s))"
    by (simp add: consistent_def)
  then have di: "distinct (items s)" and inj: "inj_on (getEntityId cfg) (set (items s))"
    by (simp_all add: distinct_map)
  from e' di have "e' \<in> set (items s)" "e' \<noteq> e" by auto
  with inj assms(2) show "getEntityId cfg e' \<noteq> getEntityId cfg e"
    by (auto dest: inj_onD)
qed

text \<open>
  C2, as the code has it. Let \<open>s\<close> be the state after any sequence of operations on a new
  store in which each \<^verbatim>\<open>add\<close> brought an identity the identity map did not hold at that
  moment, and let \<open>id\<close> be any string other than the names the identity map inherits from
  \<^verbatim>\<open>Object.prototype\<close>. \<^verbatim>\<open>removeById(id)\<close> returns false and changes nothing, so emits
  no event, when no entity with that identity is in the store. When one is, the call
  returns true, invokes the entity's disposer, removes the entity from the ordered
  sequence, which then holds no entity with that identity, and from the identity map,
  emits exactly one \<^verbatim>\<open>itemRemoved\<close> event, and \<^verbatim>\<open>findById(id)\<close> is null afterwards.
\<close>

theorem removeById_outcome:
  assumes "freshAdds env cfg ops createEntityStore"
    and "s = run env cfg ops createEntityStore"
    and "i \<notin> set objectPrototypeMembers"
    and "removeById i src s = (r, s')"
  shows "((\<forall>e \<in> set (items s). getEntityId cfg e \<noteq> i) \<longrightarrow>
            itemsMap s i = None \<and> r = Inr False \<and> s' = s) \<and>
         (\<forall>e \<in> set (items s). getEntityId cfg e = i \<longrightarrow>
            itemsMap s i = Some e \<and> r = Inr True \<and>
            cleaned s' = cleaned s @ [e] \<and>
            items s' = remove1 e (items s) \<and> e \<notin> set (items s') \<and>
            (\<forall>e' \<in> set (items s'). getEntityId cfg e' \<noteq> i) \<and>
            itemsMap s' = (itemsMap s)(i := None) \<and>
            events s' = events s @ [ItemRemoved e (sourceOr src)] \<and>
            findById cfg s' i = None)"
proof -
  have c: "consistent cfg s"
    unfolding assms(2) using assms(1) by (rule consistent_reachable)
  have absent: "itemsMap s i = None \<and> r = Inr False \<and> s' = s"
    if none: "\<forall>e \<in> set (items s). getEntityId cfg e \<noteq> i"
  proof -
    have "itemsMap s i = None"
    proof (cases "itemsMap s i")
      case (Some e)
      with c have "e \<in> set (items s)" "getEntityId cfg e = i"
        by (auto simp: consistent_def mapped_in_items_def)
      with none show ?thesis by blast
    qed simp
    with assms(3,4) show ?thesis by (auto simp: removeById_def itemsMapGet_def)
  qed
  have present: "itemsMap s i = Some e \<and> r = Inr True \<and>
            cleaned s' = cleaned s @ [e] \<and>
            items s' = remove1 e (items s) \<and> e \<notin> set (items s') \<and>
            (\<forall>e' \<in> set (items s'). getEntityId cfg e' \<noteq> i) \<and>
            itemsMap s' = (itemsMap s)(i := None) \<and>
            events s' = events s @ [ItemRemoved e (sourceOr src)] \<and>
            findById cfg s' i = None"
    if mem: "e \<in> set (items s)" and ide: "getEntityId cfg e = i" for e
  proof -
    from c mem ide have m: "itemsMap s i = Some e" by (auto simp: consistent_def)
    with assms(4) mem have r: "r = Inr True"
      and s': "s' = s\<lparr>cleaned := cleaned s @ [e], items := remove1 e (items s),
                       itemsMap := (itemsMap s)(i := None),
                       events := events s @ [ItemRemoved e (sourceOr src)]\<rparr>"
      by (simp_all add: removeById_present)
    from consistent_remove1 [OF c mem] ide
    have others: "\<forall>e' \<in> set (remove1 e (items s)). getEntityId cfg e' \<noteq> i" by simp
    with ide have gone: "e \<notin> set (remove1 e (items s))" by blast
    have f: "findById cfg s' i = None"
      using assms(3) by (simp add: s' findById_def itemsMapGet_def)
    from m r others gone f show ?thesis by (simp add: s')
  qed
  show ?thesis
  proof (rule conjI)
    show "(\<forall>e \<in> set (items s). getEntityId cfg e \<noteq> i) \<longrightarrow>
            itemsMap s i = None \<and> r = Inr False \<and> s' = s"
      by (rule impI) (rule absent)
    show "\<forall>e \<in> set (items s). getEntityId cfg e = i \<longrightarrow>
            itemsMap s i = Some e \<and> r = Inr True \<and>
            cleaned s' = cleaned s @ [e] \<and>
            items s' = remove1 e (items s) \<and> e \<notin> set (items s') \<and>
            (\<forall>e' \<in> set (items s'). getEntityId cfg e' \<noteq> i) \<and>
            itemsMap s' = (itemsMap s)(i := None) \<and>
            events s' = events s @ [ItemRemoved e (sourceOr src)] \<and>
            findById cfg s' i = None"
      by (intro ballI impI) (rule present)
  qed
qed

theorem removeById_outcome_witness:
  "removeById ''a'' None
     (run sampleEnv sampleConfig [Add entA None, Add entB None] createEntityStore)
   = (Inr True,
      snd (removeById ''a'' None
        (run sampleEnv sampleConfig [Add entA None, Add entB None] createEntityStore)))
   \<and> items (snd (removeById ''a'' None
         (run sampleEnv sampleConfig [Add entA None, Add entB None] createEntityStore)))
       = [entB]
   \<and> findById sampleConfig (snd (removeById ''a'' None
         (run sampleEnv sampleConfig [Add entA None, Add entB None] createEntityStore))) ''a''
       = None
   \<and> fst (removeById ''c'' None
         (run sampleEnv sampleConfig [Add entA None, Add entB None] createEntityStore))
       = Inr False"
proof -
  let ?ops = "[Add entA None, Add entB None]"
  let ?s = "run sampleEnv sampleConfig ?ops createEntityStore"
  have f: "freshAdds sampleEnv sampleConfig ?ops createEntityStore"
    by (simp add: add_def createEntityStore_def)
  have i: "items ?s = [entA, entB]"
    by (simp add: add_def createEntityStore_def)
  note t = removeById_outcome [OF f refl _ surjective_pairing, where src = None]
  from t [of "''a''"] t [of "''c''"] i
  show ?thesis by (simp add: prod_eq_iff)
qed

text \<open>
  C2 as stated fails after two calls of \<^verbatim>\<open>add\<close> with one identity: once \<^verbatim>\<open>removeById\<close> has
  removed the later entity, the earlier one is still in the ordered sequence, an entity
  with that identity is present, and \<^verbatim>\<open>removeById\<close> of the identity returns false.
\<close>

theorem removeById_duplicate_counterexample:
  "entA \<in> set (items (run sampleEnv sampleConfig
       [Add entA None, Add entA' None, RemoveById ''a'' None] createEntityStore))
   \<and> getEntityId sampleConfig entA = ''a''
   \<and> fst (removeById ''a'' None (run sampleEnv sampleConfig
       [Add entA None, Add entA' None, RemoveById ''a'' None] createEntityStore)) = Inr False"
  by (simp add: add_def removeById_present removeById_def itemsMapGet_def createEntityStore_def)

text \<open>
  For the name of an inherited member that the store holds no entity for, \<^verbatim>\<open>removeById\<close>
  raises instead of returning false.
\<close>

lemma removeById_inherited_member_raises:
  "fst (removeById ''constructor'' None
         (run sampleEnv sampleConfig [] createEntityStore)) = Inl TypeError"
  by (simp add: removeById_def itemsMapGet_def objectPrototypeMembers_def createEntityStore_def)

text \<open>
  C9, as the code has it. In any state reached from a new store by operations in which
  each \<^verbatim>\<open>add\<close> brought an identity the identity map did not hold at that moment, for every
  entity that the identity map holds and the configured access validator rejects:
  \<^verbatim>\<open>findById\<close> of its identity is null, and \<^verbatim>\<open>removeById\<close> of the same identity still
  returns true, invokes the entity's disposer, removes it from the ordered sequence and
  from the identity map, and emits \<^verbatim>\<open>itemRemoved\<close>. Removal is decided by the identity map
  alone; \<^verbatim>\<open>removeById\<close> has no access to the validator.
\<close>

theorem removeById_ignores_access:
  assumes "freshAdds env cfg ops createEntityStore"
    and "s = run env cfg ops createEntityStore"
    and "itemsMap s i = Some e" and "rejected cfg e"
    and "removeById i src s = (r, s')"
  shows "findById cfg s i = None \<and> r = Inr True \<and> cleaned s' = cleaned s @ [e] \<and>
         items s' = remove1 e (items s) \<and> e \<notin> set (items s') \<and>
         itemsMap s' = (itemsMap s)(i := None) \<and>
         events s' = events s @ [ItemRemoved e (sourceOr src)]"
proof -
  have c: "consistent cfg s"
    unfolding assms(2) using assms(1) by (rule consistent_reachable)
  with assms(3) have mem: "e \<in> set (items s)" and ide: "getEntityId cfg e = i"
    by (auto simp: consistent_def mapped_in_items_def)
  from consistent_remove1 [OF c mem] have gone: "e \<notin> set (remove1 e (items s))" by blast
  have f: "findById cfg s i = None"
    using assms(3,4) by (simp add: findById_def itemsMapGet_def)
  from assms(3,5) mem have r: "r = Inr True"
    and s': "s' = s\<lparr>cleaned := cleaned s @ [e], items := remove1 e (items s),
                     itemsMap := (itemsMap s)(i := None),
                     events := events s @ [ItemRemoved e (sourceOr src)]\<rparr>"
    by (simp_all add: removeById_present)
  from r gone f show ?thesis by (simp add: s')
qed

theorem removeById_ignores_access_witness:
  "findById guardedConfig (run sampleEnv guardedConfig [Add entA None, Add entC None] createEntityStore) ''c''
     = None
   \<and> fst (removeById ''c'' None
        (run sampleEnv guardedConfig [Add entA None, Add entC None] createEntityStore)) = Inr True
   \<and> items (snd (removeById ''c'' None
        (run sampleEnv guardedConfig [Add entA None, Add entC None] createEntityStore))) = [entA]"
proof -
  let ?ops = "[Add entA None, Add entC None]"
  let ?s = "run sampleEnv guardedConfig ?ops createEntityStore"
  have f: "freshAdds sampleEnv guardedConfig ?ops createEntityStore"
    by (simp add: add_def createEntityStore_def)
  have m: "itemsMap ?s ''c'' = Some entC" "items ?s = [entA, entC]"
    by (simp_all add: add_def createEntityStore_def)
  have rj: "rejected guardedConfig entC" by simp
  from removeById_ignores_access [OF f refl m(1) rj surjective_pairing, where src = None] m
  show ?thesis by simp
qed

text \<open>
  C9 as stated fails for a rejected entity that was pushed twice: \<^verbatim>\<open>removeById\<close> returns
  true and the entity is still in the ordered sequence.
\<close>

theorem removeById_rejected_duplicate_counterexample:
  "itemsMap (run sampleEnv guardedConfig [Add entC None, Add entC None] createEntityStore) ''c''
     = Some entC
   \<and> rejected guardedConfig entC
   \<and> fst (removeById ''c'' None
        (run sampleEnv guardedConfig [Add entC None, Add entC None] createEntityStore)) = Inr True
   \<and> entC \<in> set (items (snd (removeById ''c'' None
        (run sampleEnv guardedConfig [Add entC None, Add entC None] createEntityStore))))"
  by (simp add: add_def removeById_present createEntityStore_def)

subsection \<open>add and findById\<close>

lemma keepsEntity_step:
  assumes "itemsMap s (getEntityId cfg e) = Some e" and "keepsEntity cfg e x"
  shows "itemsMap (step env cfg x s) (getEntityId cfg e) = Some e"
proof (cases x)
  case (Add e' src)
  with assms show ?thesis by (auto simp: add_def Let_def)
next
  case (RemoveById i src)
  with assms show ?thesis
    by (cases "itemsMap s i") (auto simp: removeById_absent removeById_present)
qed (use assms(1) in \<open>simp_all add: query_def sort_store_def\<close>)

lemma keepsEntity_run:
  "itemsMap s (getEntityId cfg e) = Some e \<Longrightarrow> list_all (keepsEntity cfg e) xs
     \<Longrightarrow> itemsMap (run env cfg xs s) (getEntityId cfg e) = Some e"
  by (induction xs arbitrary: s) (simp_all add: keepsEntity_step)

text \<open>
  C1, as the code has it. \<^verbatim>\<open>add\<close> returns the entity it was given. For every entity E passed
  to \<^verbatim>\<open>add\<close>, accepted by the access validator when one is configured, and followed
  neither by \<^verbatim>\<open>removeById\<close> of E's identity nor by \<^verbatim>\<open>add\<close> of another entity with E's
  identity, \<^verbatim>\<open>findById\<close> of E's identity returns E.
\<close>

theorem findById_after_add:
  assumes "list_all (keepsEntity cfg e) ops" and "\<not> rejected cfg e"
  shows "fst (add cfg e src s) = e \<and>
         findById cfg (run env cfg ops (snd (add cfg e src s))) (getEntityId cfg e)
           = Some (Entity e)"
proof -
  have "itemsMap (snd (add cfg e src s)) (getEntityId cfg e) = Some e"
    by (simp add: add_def Let_def)
  with assms(1) have "itemsMap (run env cfg ops (snd (add cfg e src s))) (getEntityId cfg e) = Some e"
    by (rule keepsEntity_run [rotated])
  with assms(2) show ?thesis by (simp add: findById_def itemsMapGet_def add_def Let_def)
qed

theorem findById_after_add_witness:
  "findById guardedConfig
     (run sampleEnv guardedConfig
        [Add entB None, RemoveById ''b'' None, Query (''group'', JStr ''x'') None, Add entC None]
        (snd (add guardedConfig entA None createEntityStore)))
     ''a'' = Some (Entity entA)"
proof -
  have k: "list_all (keepsEntity guardedConfig entA)
     [Add entB None, RemoveById ''b'' None, Query (''group'', JStr ''x'') None, Add entC None]"
    by simp
  have a: "\<not> rejected guardedConfig entA" by simp
  from findById_after_add [OF k a, of None createEntityStore sampleEnv] show ?thesis by simp
qed

text \<open>
  C1 as stated fails when another entity with the same identity is added later: the
  identity map then holds the later entity, and the earlier one was never removed.
\<close>

theorem findById_overwritten_counterexample:
  "findById sampleConfig
     (run sampleEnv sampleConfig [Add entA None, Add entA' None] createEntityStore)
     (getEntityId sampleConfig entA) = Some (Entity entA')
   \<and> entA' \<noteq> entA"
  by (simp add: add_def findById_def itemsMapGet_def createEntityStore_def)

subsection \<open>destroy\<close>

text \<open>
  C8, as the code has it. Store \<^verbatim>\<open>destroy\<close> does not destroy the entities still in the
  store: it calls \<^verbatim>\<open>clean\<close> on the store's cleanup registry, destroys every index created so
  far and the event emitter, and leaves the ordered sequence and the identity map as they
  are; no entity's disposer is invoked and no event is emitted.
\<close>

theorem destroy_leaves_entities:
  "items (destroy s) = items s \<and> itemsMap (destroy s) = itemsMap s \<and>
   cleaned (destroy s) = cleaned s \<and> events (destroy s) = events s \<and>
   cleanupsCleaned (destroy s) = Suc (cleanupsCleaned s) \<and>
   destroyedIndexes (destroy s) = destroyedIndexes s @ queryIndexes s \<and>
   eventsDestroyed (destroy s)"
  by (simp add: destroy_def)

text \<open>
  C8 as stated fails on any store that is not empty: after \<^verbatim>\<open>destroy\<close> the entity is still
  in the ordered sequence and in the identity map, and its disposer has not been invoked.
\<close>

theorem destroy_counterexample:
  "items (destroy (run sampleEnv sampleConfig [Add entA None, GetKeyIndex ''group''] createEntityStore)) = [entA]
   \<and> itemsMap (destroy (run sampleEnv sampleConfig [Add entA None, GetKeyIndex ''group''] createEntityStore)) ''a'' = Some entA
   \<and> cleaned (destroy (run sampleEnv sampleConfig [Add entA None, GetKeyIndex ''group''] createEntityStore)) = []"
  by (simp add: destroy_def add_def getKeyIndex_def createEntityStore_def)

subsection \<open>Lookup by unique index\<close>

text \<open>
  C5. \<^verbatim>\<open>findByUniqueIndex(key, v)\<close> asks the index of the key for the entities that hold
  \<open>v\<close>; \<open>results\<close> below is the index's answer. When no entity holds \<open>v\<close> the call returns
  null. When exactly one does, the call returns it. When more than one does, the call
  returns the first in the index's order and writes one warning, without failing. In each
  case the call returns null instead when the access validator rejects that match. The
  call leaves both containers and the logs of events and disposers as they were.
\<close>

theorem findByUniqueIndex_outcome:
  assumes "findByUniqueIndex env cfg key v s = (r, s')"
    and "results = indexFind env key (getKeyIndex key s) v"
  shows "(results = [] \<longrightarrow> r = None \<and> warnings s' = warnings s) \<and>
         (\<forall>e. results = [e] \<longrightarrow>
            r = (if rejected cfg e then None else Some e) \<and> warnings s' = warnings s) \<and>
         (\<forall>e e' es. results = e # e' # es \<longrightarrow>
            r = (if rejected cfg e then None else Some e) \<and>
            warnings s' = warnings s @ [multipleItemsWarning key v]) \<and>
         items s' = items s \<and> itemsMap s' = itemsMap s \<and> events s' = events s \<and>
         cleaned s' = cleaned s"
proof -
  have w: "warnings (getKeyIndex key s) = warnings s" "events (getKeyIndex key s) = events s"
    "cleaned (getKeyIndex key s) = cleaned s"
    by (simp_all add: getKeyIndex_def)
  show ?thesis
  proof (cases results)
    case Nil
    with assms w show ?thesis by (auto simp: findByUniqueIndex_def Let_def)
  next
    case (Cons e es)
    show ?thesis
    proof (cases es)
      case Nil
      with Cons assms w show ?thesis
        by (auto simp: findByUniqueIndex_def Let_def)
    next
      case (Cons e' es')
      with \<open>results = e # es\<close> assms w show ?thesis
        by (auto simp: findByUniqueIndex_def Let_def)
    qed
  qed
qed

text \<open>
  C10. When the index answers more than one match, the access validator is consulted for
  the first one only: the call returns the first match when the validator accepts it and
  null when it rejects it, whatever the validator says about the later matches; so a
  rejected first match gives null even when a later match would pass.
\<close>

theorem findByUniqueIndex_first_match_only:
  assumes "indexFind env key (getKeyIndex key s) v = e # e' # es"
    and "accessValidator cfg = Some av"
  shows "fst (findByUniqueIndex env cfg key v s) = (if av e then Some e else None) \<and>
         (\<not> av e \<and> av e' \<longrightarrow> fst (findByUniqueIndex env cfg key v s) = None)"
  using assms by (simp add: findByUniqueIndex_def Let_def rejected_def)

lemma sample_fields [simp]:
  "getField entA ''group'' = JStr ''x''" "getField entB ''group'' = JStr ''x''"
  "getField entC ''group'' = JStr ''y''" "getField entA' ''group'' = JStr ''y''"
  "getField entA ''id'' = JStr ''a''" "getField entB ''id'' = JStr ''b''"
  "getField entC ''id'' = JStr ''c''" "getField entA' ''id'' = JStr ''a''"
  by (simp_all add: getField_def entA_def entA'_def entB_def entC_def)

lemma sample_indexFind [simp]:
  "indexFind sampleEnv key s v = filter (\<lambda>e. getField e key = v) (items s)"
  by (simp add: sampleEnv_def)

lemma add_fields [simp]:
  "items (snd (add cfg e src s)) = items s @ [e]"
  "warnings (snd (add cfg e src s)) = warnings s"
  by (simp_all add: add_def Let_def)

lemma createEntityStore_fields [simp]:
  "items createEntityStore = []" "warnings createEntityStore = []"
  "events createEntityStore = []" "cleaned createEntityStore = []"
  "queryCache createEntityStore = []" "queryIndexes createEntityStore = []"
  "itemsMap createEntityStore = Map.empty"
  by (simp_all add: createEntityStore_def)

theorem findByUniqueIndex_outcome_witness:
  "findByUniqueIndex sampleEnv guardedConfig ''group'' (JStr ''x'')
       (run sampleEnv guardedConfig [Add entA None, Add entB None, Add entC None] createEntityStore)
     = (Some entA,
        snd (findByUniqueIndex sampleEnv guardedConfig ''group'' (JStr ''x'')
          (run sampleEnv guardedConfig [Add entA None, Add entB None, Add entC None] createEntityStore)))
   \<and> warnings (snd (findByUniqueIndex sampleEnv guardedConfig ''group'' (JStr ''x'')
          (run sampleEnv guardedConfig [Add entA None, Add entB None, Add entC None] createEntityStore)))
     = [multipleItemsWarning ''group'' (JStr ''x'')]
   \<and> fst (findByUniqueIndex sampleEnv guardedConfig ''id'' (JStr ''b'')
          (run sampleEnv guardedConfig [Add entA None, Add entB None, Add entC None] createEntityStore))
     = Some entB
   \<and> fst (findByUniqueIndex sampleEnv guardedConfig ''id'' (JStr ''c'')
          (run sampleEnv guardedConfig [Add entA None, Add entB None, Add entC None] createEntityStore))
     = None
   \<and> fst (findByUniqueIndex sampleEnv guardedConfig ''id'' (JStr ''z'')
          (run sampleEnv guardedConfig [Add entA None, Add entB None, Add entC None] createEntityStore))
     = None"
proof -
  let ?s = "run sampleEnv guardedConfig [Add entA None, Add entB None, Add entC None] createEntityStore"
  have many: "indexFind sampleEnv ''group'' (getKeyIndex ''group'' ?s) (JStr ''x'') = [entA, entB]"
    and one: "indexFind sampleEnv ''id'' (getKeyIndex ''id'' ?s) (JStr ''b'') = [entB]"
    and hidden: "indexFind sampleEnv ''id'' (getKeyIndex ''id'' ?s) (JStr ''c'') = [entC]"
    and none: "indexFind sampleEnv ''id'' (getKeyIndex ''id'' ?s) (JStr ''z'') = []"
    by simp_all
  from findByUniqueIndex_outcome [OF surjective_pairing many [symmetric], where cfg = guardedConfig]
       findByUniqueIndex_outcome [OF surjective_pairing one [symmetric], where cfg = guardedConfig]
       findByUniqueIndex_outcome [OF surjective_pairing hidden [symmetric], where cfg = guardedConfig]
       findByUniqueIndex_outcome [OF surjective_pairing none [symmetric], where cfg = guardedConfig]
  show ?thesis by (simp add: prod_eq_iff)
qed

theorem findByUniqueIndex_first_match_only_witness:
  "\<not> groupX entA' \<and> groupX entA \<and>
   fst (findByUniqueIndex sampleEnv guardedConfig ''id'' (JStr ''a'')
          (run sampleEnv guardedConfig [Add entA' None, Add entA None] createEntityStore))
     = None"
proof -
  let ?s = "run sampleEnv guardedConfig [Add entA' None, Add entA None] createEntityStore"
  have two: "indexFind sampleEnv ''id'' (getKeyIndex ''id'' ?s) (JStr ''a'') = [entA', entA]"
    by simp
  have av: "accessValidator guardedConfig = Some groupX"
    by (simp add: guardedConfig_def)
  from findByUniqueIndex_first_match_only [OF two av] show ?thesis by simp
qed

subsection \<open>The memo of query views\<close>

lemma cache_ok_createOrReuseQuery:
  "cache_ok env s \<Longrightarrow> cache_ok env (snd (createOrReuseQuery env f so s))"
  by (simp add: cache_ok_def createOrReuseQuery_def Let_def split: option.splits)

lemma queryCache_getKeyIndex [simp]: "queryCache (getKeyIndex k s) = queryCache s"
  by (simp add: getKeyIndex_def)

lemma queryCache_findByUniqueIndex [simp]:
  "queryCache (snd (findByUniqueIndex env cfg k v s)) = queryCache s"
  by (simp add: findByUniqueIndex_def Let_def split: list.splits)

lemma queryCache_add [simp]: "queryCache (snd (add cfg e src s)) = queryCache s"
  by (simp add: add_def Let_def)

lemma queryCache_removeById [simp]: "queryCache (snd (removeById i src s)) = queryCache s"
  by (cases "itemsMap s i") (simp_all add: removeById_absent removeById_present)

lemma cache_ok_step: "cache_ok env s \<Longrightarrow> cache_ok env (step env cfg x s)"
proof (cases x)
  case (Query flt srt)
  assume "cache_ok env s"
  then show ?thesis unfolding Query by (simp add: cache_ok_createOrReuseQuery query_def)
next
  case (Sort srt)
  assume "cache_ok env s"
  then show ?thesis unfolding Sort by (simp add: cache_ok_createOrReuseQuery sort_store_def)
qed (simp_all add: cache_ok_def)

lemma cache_ok_run: "cache_ok env s \<Longrightarrow> cache_ok env (run env cfg xs s)"
  by (induction xs arbitrary: s) (simp_all add: cache_ok_step)

lemma cache_ok_reachable: "cache_ok env (run env cfg xs createEntityStore)"
  by (rule cache_ok_run) (simp add: cache_ok_def)

lemma createOrReuseQuery_view:
  assumes "cache_ok env s" and "createOrReuseQuery env f so s = (q, s')"
  shows "qfilter q = f \<and> qsort q = map_option (resolveSortInput env) so"
proof (cases "map_of (queryCache s) (f, so)")
  case None
  with assms(2) show ?thesis by (auto simp: createOrReuseQuery_def Let_def)
next
  case (Some q')
  then have "((f, so), q') \<in> set (queryCache s)" by (rule map_of_SomeD)
  with assms(1) have "qfilter q' = f \<and> qsort q' = map_option (resolveSortInput env) so"
    by (auto simp: cache_ok_def list_all_iff)
  with Some assms(2) show ?thesis by (simp add: createOrReuseQuery_def)
qed

subsection \<open>Sorting with a comparator\<close>

lemma mset_insertWith: "mset (insertWith c x xs) = add_mset x (mset xs)"
  by (induction xs) simp_all

lemma mset_sortWith: "mset (sortWith c xs) = mset xs"
  by (induction xs) (simp_all add: mset_insertWith)

lemma set_insertWith: "set (insertWith c x xs) = insert x (set xs)"
  by (induction xs) auto

lemma sorted_insertWith:
  assumes total: "\<And>a b. c a b \<le> 0 \<or> c b a \<le> 0"
    and trans: "\<And>a b d. c a b \<le> 0 \<Longrightarrow> c b d \<le> 0 \<Longrightarrow> c a d \<le> 0"
  shows "sorted_wrt (\<lambda>a b. c a b \<le> 0) xs \<Longrightarrow> sorted_wrt (\<lambda>a b. c a b \<le> 0) (insertWith c x xs)"
proof (induction xs)
  case Nil
  then show ?case by simp
next
  case (Cons y ys)
  show ?case
  proof (cases "c x y \<le> 0")
    case True
    with Cons.prems trans show ?thesis by auto
  next
    case False
    with total [of x y] have "c y x \<le> 0" by simp
    with False Cons show ?thesis by (auto simp: set_insertWith)
  qed
qed

lemma sorted_sortWith:
  assumes "\<And>a b. c a b \<le> 0 \<or> c b a \<le> 0"
    and "\<And>a b d. c a b \<le> 0 \<Longrightarrow> c b d \<le> 0 \<Longrightarrow> c a d \<le> 0"
  shows "sorted_wrt (\<lambda>a b. c a b \<le> 0) (sortWith c xs)"
  by (induction xs) (simp_all add: sorted_insertWith [OF assms])

subsection \<open>Queries\<close>

lemma getRootSource_filter: "getRootSource cfg s = filter (\<lambda>e. \<not> rejected cfg e) (items s)"
  by (simp add: getRootSource_def rejected_def split: option.splits)

text \<open>
  C3. Let a query view be obtained by \<^verbatim>\<open>query(P, S)\<close> in any state reached from a new store,
  for any filter input with predicate P and any sort input with comparator S. Read in
  any state \<open>t\<close> of the store, its \<^verbatim>\<open>all\<close> equals the result of sorting by S the entities of
  the store for which P holds and which pass the configured access validator (all of
  them when no validator is configured): it holds exactly those entities, as often as the
  store does, and it is in the order of S whenever S compares any two entities and is
  transitive. Obtaining the view changes no entity of the store.
\<close>

theorem query_all_sorts_accessible_matches:
  assumes "s = run env cfg ops createEntityStore"
    and "query env flt (Some srt) s = (q, s')"
  shows "queryAll env cfg q (getRootSource cfg t) =
           sortWith (resolveSortInput env srt)
             (filter (\<lambda>e. filterHolds env flt e \<and> \<not> rejected cfg e) (items t)) \<and>
         mset (queryAll env cfg q (getRootSource cfg t)) =
           mset (filter (\<lambda>e. filterHolds env flt e \<and> \<not> rejected cfg e) (items t)) \<and>
         ((\<forall>a b. resolveSortInput env srt a b \<le> 0 \<or> resolveSortInput env srt b a \<le> 0) \<and>
          (\<forall>a b d. resolveSortInput env srt a b \<le> 0 \<and> resolveSortInput env srt b d \<le> 0
             \<longrightarrow> resolveSortInput env srt a d \<le> 0)
          \<longrightarrow> sorted_wrt (\<lambda>a b. resolveSortInput env srt a b \<le> 0)
                (queryAll env cfg q (getRootSource cfg t))) \<and>
         items s' = items s"
proof -
  have "cache_ok env s" unfolding assms(1) by (rule cache_ok_reachable)
  with assms(2) have q: "qfilter q = Some flt" "qsort q = Some (resolveSortInput env srt)"
    using createOrReuseQuery_view [of env s "Some flt" "Some srt" q s']
    by (simp_all add: query_def)
  have f: "filter (filterHolds env flt) (filter (\<lambda>e. \<not> rejected cfg e) (items t)) =
           filter (\<lambda>e. filterHolds env flt e \<and> \<not> rejected cfg e) (items t)"
    by (simp add: conj_commute)
  have i: "items s' = items s"
    using assms(2) createOrReuseQuery_items [of env "Some flt" "Some srt" s]
    by (simp add: query_def)
  let ?c = "resolveSortInput env srt"
  let ?xs = "filter (\<lambda>e. filterHolds env flt e \<and> \<not> rejected cfg e) (items t)"
  have a: "queryAll env cfg q (getRootSource cfg t) = sortWith ?c ?xs"
    using q f by (simp add: queryAll_def getRootSource_filter)
  have m: "mset (sortWith ?c ?xs) = mset ?xs"
    by (rule mset_sortWith)
  have o: "sorted_wrt (\<lambda>a b. ?c a b \<le> 0) (sortWith ?c ?xs)"
    if tot: "\<forall>a b. ?c a b \<le> 0 \<or> ?c b a \<le> 0"
      and tr: "\<forall>a b d. ?c a b \<le> 0 \<and> ?c b d \<le> 0 \<longrightarrow> ?c a d \<le> 0"
  proof (rule sorted_sortWith)
    show "?c a b \<le> 0 \<or> ?c b a \<le> 0" for a b using tot by blast
    show "?c a d \<le> 0" if "?c a b \<le> 0" "?c b d \<le> 0" for a b d using tr that by blast
  qed
  show ?thesis
    unfolding a using m o i by blast
qed

lemma sample_env_fields [simp]:
  "filterHolds sampleEnv (k, v) e = (getField e k = v)"
  "resolveSortInput sampleEnv asc a b =
     (if asc then int (ref a) - int (ref b) else int (ref b) - int (ref a))"
  by (simp_all add: sampleEnv_def)

lemma sample_refs [simp]: "ref entA = 1" "ref entB = 2" "ref entC = 3" "ref entA' = 4"
  by (simp_all add: entA_def entB_def entC_def entA'_def)

lemma sample_comparators_order:
  "(\<forall>a b. resolveSortInput sampleEnv asc a b \<le> 0 \<or> resolveSortInput sampleEnv asc b a \<le> 0) \<and>
   (\<forall>a b d. resolveSortInput sampleEnv asc a b \<le> 0 \<and> resolveSortInput sampleEnv asc b d \<le> 0
      \<longrightarrow> resolveSortInput sampleEnv asc a d \<le> 0)"
  by (cases asc) (simp_all, linarith+)

theorem query_all_sorts_accessible_matches_witness:
  "queryAll sampleEnv guardedConfig
     (fst (query sampleEnv (''group'', JStr ''x'') (Some False)
        (run sampleEnv guardedConfig [Add entA None, Add entB None, Add entC None]
           createEntityStore)))
     (getRootSource guardedConfig
        (snd (query sampleEnv (''group'', JStr ''x'') (Some False)
           (run sampleEnv guardedConfig [Add entA None, Add entB None, Add entC None]
              createEntityStore))))
   = [entB, entA]
   \<and> sorted_wrt (\<lambda>a b. resolveSortInput sampleEnv False a b \<le> 0) [entB, entA]"
proof -
  let ?s = "run sampleEnv guardedConfig [Add entA None, Add entB None, Add entC None]
              createEntityStore"
  let ?r = "query sampleEnv (''group'', JStr ''x'') (Some False) ?s"
  let ?all = "queryAll sampleEnv guardedConfig (fst ?r) (getRootSource guardedConfig (snd ?r))"
  have i: "items (snd ?r) = [entA, entB, entC]"
    by (simp add: query_def)
  note t = query_all_sorts_accessible_matches [OF refl surjective_pairing,
         where env = sampleEnv and cfg = guardedConfig and flt = "(''group'', JStr ''x'')"
           and srt = False and ops = "[Add entA None, Add entB None, Add entC None]"
           and t = "snd ?r"]
  from t have "?all =
          sortWith (resolveSortInput sampleEnv False)
            (filter (\<lambda>e. filterHolds sampleEnv (''group'', JStr ''x'') e \<and> \<not> rejected guardedConfig e)
               (items (snd ?r)))"
    by (rule conjunct1)
  also have "\<dots> = [entB, entA]"
    unfolding i by simp
  finally have a: "?all = [entB, entA]" .
  from t sample_comparators_order [of False]
  have "sorted_wrt (\<lambda>a b. resolveSortInput sampleEnv False a b \<le> 0) ?all"
    by blast
  with a show ?thesis by (simp only: simp_thms)
qed

lemma createOrReuseQuery_cached:
  "createOrReuseQuery env f so s = (q, s1) \<Longrightarrow> map_of (queryCache s1) (f, so) = Some q"
  by (auto simp: createOrReuseQuery_def Let_def map_add_def split: option.splits)

lemma createOrReuseQuery_hit:
  "map_of (queryCache s) (f, so) = Some q \<Longrightarrow> createOrReuseQuery env f so s = (q, s)"
  by (simp add: createOrReuseQuery_def)

lemma createOrReuseQuery_keeps:
  "map_of (queryCache s) k = Some q \<Longrightarrow>
   map_of (queryCache (snd (createOrReuseQuery env f so s))) k = Some q"
  by (auto simp: createOrReuseQuery_def Let_def map_add_def split: option.splits)

lemma cached_step:
  "map_of (queryCache s) k = Some q \<Longrightarrow> map_of (queryCache (step env cfg x s)) k = Some q"
  by (cases x) (simp_all add: createOrReuseQuery_keeps query_def sort_store_def)

lemma cached_run:
  "map_of (queryCache s) k = Some q \<Longrightarrow> map_of (queryCache (run env cfg xs s)) k = Some q"
  by (induction xs arbitrary: s) (simp_all add: cached_step)

text \<open>
  C4. For every pair of filter and sort arguments, a call to \<^verbatim>\<open>query\<close> with arguments equal
  to those of an earlier call returns the view object the earlier call returned, the very
  same instance, and adds nothing to the memo; this holds right after the first call and
  after any operations in between.
\<close>

theorem query_returns_same_view:
  assumes "query env flt srt s = (q, s1)"
  shows "query env flt srt s1 = (q, s1) \<and>
         query env flt srt (run env cfg ops s1) = (q, run env cfg ops s1)"
proof -
  from assms have c: "map_of (queryCache s1) (Some flt, srt) = Some q"
    by (simp add: query_def createOrReuseQuery_cached)
  then have "map_of (queryCache (run env cfg ops s1)) (Some flt, srt) = Some q"
    by (rule cached_run)
  with c show ?thesis by (simp add: query_def createOrReuseQuery_hit)
qed

theorem query_returns_same_view_witness:
  "fst (query sampleEnv (''group'', JStr ''x'') (Some True)
      (run sampleEnv sampleConfig
         [Add entB None, Query (''group'', JStr ''y'') None, RemoveById ''a'' None]
         (snd (query sampleEnv (''group'', JStr ''x'') (Some True)
            (run sampleEnv sampleConfig [Add entA None] createEntityStore)))))
   = fst (query sampleEnv (''group'', JStr ''x'') (Some True)
            (run sampleEnv sampleConfig [Add entA None] createEntityStore))"
  by (simp only: query_returns_same_view [OF surjective_pairing] fst_conv)

text \<open>Calls with different arguments get different view objects.\<close>

lemma distinct_arguments_distinct_views:
  assumes "s = run env cfg ops createEntityStore"
    and "map_of (queryCache s) k = Some q" and "map_of (queryCache s) k' = Some q'"
    and "k \<noteq> k'"
  shows "qid q \<noteq> qid q'"
proof -
  have "cache_ok env s" unfolding assms(1) by (rule cache_ok_reachable)
  then have "distinct (map (qid \<circ> snd) (queryCache s))" by (simp add: cache_ok_def)
  then have inj: "inj_on (qid \<circ> snd) (set (queryCache s))" by (simp add: distinct_map)
  from assms(2,3) have m: "(k, q) \<in> set (queryCache s)" "(k', q') \<in> set (queryCache s)"
    by (auto dest: map_of_SomeD)
  have "(k, q) = (k', q')" if "qid q = qid q'"
    using inj_onD [OF inj _ m] that by simp
  with assms(4) show ?thesis by auto
qed

subsection \<open>Lookups and asserting lookups\<close>

lemma sortWith_Nil_iff: "sortWith c xs = [] \<longleftrightarrow> xs = []"
  using mset_sortWith [of c xs] by (metis mset_zero_iff)

lemma queryAll_Nil_iff:
  "queryAll env cfg q source = [] \<longleftrightarrow>
     (case qfilter q of None \<Rightarrow> source | Some f \<Rightarrow> filter (filterHolds env f) source) = []"
  by (simp add: queryAll_def Let_def sortWith_Nil_iff split: option.splits)

text \<open>
  C6. A lookup is to answer null when the store has no entity for the identity. The code
  does not for the names the identity map inherits from \<^verbatim>\<open>Object.prototype\<close>: on a new
  store \<^verbatim>\<open>findById("constructor")\<close> answers the inherited member, and
  \<^verbatim>\<open>assertFindById("constructor")\<close> returns it instead of raising; \<^verbatim>\<open>findById("toString")\<close>
  answers the inherited member on a store whose only entity has been removed.
\<close>

theorem findById_answers_inherited_member:
  "findById sampleConfig (run sampleEnv sampleConfig [] createEntityStore) ''constructor''
     = Some (Inherited ''constructor'')
   \<and> assertFindById sampleConfig (run sampleEnv sampleConfig [] createEntityStore)
       ''constructor'' None
     = Inr (Inherited ''constructor'')
   \<and> findById sampleConfig
       (run sampleEnv sampleConfig [Add entA None, RemoveById ''a'' None] createEntityStore)
       ''toString''
     = Some (Inherited ''toString'')"
  by (simp add: findById_def assertFindById_def assert_def itemsMapGet_def
        objectPrototypeMembers_def add_def removeById_present createEntityStore_def)

text \<open>
  For every other identity \<^verbatim>\<open>findById\<close> answers null exactly when the identity map has no
  entity for it or the validator rejects the entity; \<^verbatim>\<open>find\<close> answers the empty list exactly
  when no accessible entity passes the filter; \<^verbatim>\<open>findByUniqueIndex\<close> answers null when the
  index has no match; and each asserting lookup raises NotFound exactly when its lookup
  answers null, \<^verbatim>\<open>assertFindById\<close> with the caller's message when one is given.
\<close>

lemma findById_null_iff:
  "i \<notin> set objectPrototypeMembers \<Longrightarrow>
   findById cfg s i = None \<longleftrightarrow>
     itemsMap s i = None \<or> (\<exists>e. itemsMap s i = Some e \<and> rejected cfg e)"
  by (auto simp: findById_def itemsMapGet_def split: option.splits)

lemma assertFindById_raises_iff:
  "assertFindById cfg s i err =
     (case findById cfg s i of
        None \<Rightarrow> Inl (NotFound (case err of
                                None \<Rightarrow> Message (''No item found for id '' @ i)
                              | Some m \<Rightarrow> m))
      | Some x \<Rightarrow> Inr x)"
  by (simp add: assertFindById_def assert_def Let_def)

lemma assertFindByUniqueIndex_raises_iff:
  "assertFindByUniqueIndex env cfg key v s =
     (case fst (findByUniqueIndex env cfg key v s) of
        None \<Rightarrow> Inl (NotFound (Message
                 (''Assertion error for assertFindByUniqueIndex for key '' @ key
                    @ '' and value '' @ toString v)))
      | Some e \<Rightarrow> Inr e,
      snd (findByUniqueIndex env cfg key v s))"
  by (simp add: assertFindByUniqueIndex_def assert_def case_prod_unfold Let_def
        split: option.splits)

lemma find_store_empty_iff:
  assumes "s = run env cfg ops createEntityStore"
  shows "fst (find_store env cfg flt s) = [] \<longleftrightarrow>
           (\<forall>e \<in> set (items s). rejected cfg e \<or> \<not> filterHolds env flt e)"
proof -
  obtain q s' where r: "query env flt None s = (q, s')" by (cases "query env flt None s")
  have "cache_ok env s" unfolding assms by (rule cache_ok_reachable)
  with r have q: "qfilter q = Some flt"
    using createOrReuseQuery_view [of env s "Some flt" None q s'] by (simp add: query_def)
  have i: "items s' = items s"
    using r createOrReuseQuery_items [of env "Some flt" None s] by (simp add: query_def)
  from r q i show ?thesis
    by (auto simp: find_store_def queryAll_Nil_iff getRootSource_filter filter_empty_conv)
qed

lemma findByUniqueIndex_no_match:
  "indexFind env key (getKeyIndex key s) v = [] \<Longrightarrow>
   fst (findByUniqueIndex env cfg key v s) = None"
  by (simp add: findByUniqueIndex_def Let_def)

end
